theory Spec2Isabelle
  imports Complex_Main "HOL-Library.AList"
begin

section \<open>The online Viterbi decoder of \<^verbatim>\<open>V.py\<close>\<close>

text \<open>
  The class \<^verbatim>\<open>Viterbi\<close> of \<^verbatim>\<open>src/V.py\<close> is embedded as follows.

  \<^item> A Python \<^verbatim>\<open>dict\<close> is an association list in insertion order, its keys distinct
    (\<open>is_dict\<close>): \<^verbatim>\<open>d[k] = v\<close> is \<open>AList.update\<close> (an existing key keeps its place, a new
    key goes last, as in Python), \<^verbatim>\<open>del d[k]\<close> is \<open>AList.delete\<close>, \<^verbatim>\<open>k in d\<close> is
    \<open>map_of d k \<noteq> None\<close>, \<^verbatim>\<open>len(d)\<close> is \<open>length d\<close> and iteration runs over \<open>map fst d\<close>.
  \<^item> Probabilities are Python floats in the source and exact reals here: rounding,
    underflow, infinities and NaN are outside the model.
  \<^item> The two exceptions the code can raise on well-typed arguments are values of
    \<open>error\<close>: \<^verbatim>\<open>KeyError\<close> (line 53, \<^verbatim>\<open>self.incoming[to_state]\<close>) and \<^verbatim>\<open>IndexError\<close>
    (line 76, \<^verbatim>\<open>pop(0)\<close> on an empty list).
  \<^item> \<^verbatim>\<open>step\<close> mutates objects of its caller (\<^verbatim>\<open>path[max_from] = []\<close>,
    \<^verbatim>\<open>path[max_from].pop(0)\<close>), so the caller's objects are an explicit \<open>store\<close>: the
    object passed as \<^verbatim>\<open>V\<close>, the dict passed as \<^verbatim>\<open>path\<close> (state to address of a list
    object), the list objects by address, and the next unused address. \<open>step\<close> returns its
    outcome together with the store after the call, also when it raises. Two keys of the
    path table may refer to the same list object. The dict passed as \<^verbatim>\<open>V\<close> holds floats
    and the one passed as \<^verbatim>\<open>path\<close> holds lists, so they are two objects.
  \<^item> The collaborators \<^verbatim>\<open>emission_probability\<close> and \<^verbatim>\<open>candidate_states\<close> are total
    functions without effects; the candidates come as the list in which the loop visits
    them.
\<close>

subsection \<open>Data\<close>

type_synonym 's dist = "('s \<times> real) list"

type_synonym 's graph = "('s \<times> ('s \<times> real) list) list"

type_synonym 's rev_index = "('s \<times> ('s \<times> real) list) list"

type_synonym 's paths = "('s \<times> 's list) list"

datatype error = KeyError | IndexError

definition is_dict :: "('k \<times> 'v) list \<Rightarrow> bool" where
  "is_dict d = distinct (map fst d)"

record ('s, 'o) viterbi =
  hmm :: "'s graph"
  emission_probability :: "'s \<Rightarrow> 'o \<Rightarrow> real"
  constraint_length :: int
  candidate_states :: "'o \<Rightarrow> 's list"
  priors :: "'s dist"
  incoming :: "'s rev_index"
  smallV :: real

record 's store =
  dist_obj :: "'s dist option"
  path_obj :: "('s \<times> nat) list"
  list_objs :: "nat \<Rightarrow> 's list"
  next_free :: nat

text \<open>
  The variables of one call of \<^verbatim>\<open>step\<close>: the dict \<^verbatim>\<open>V\<close> refers to, the fresh dicts
  \<^verbatim>\<open>new_V\<close> and \<^verbatim>\<open>new_path\<close> (their lists are built by \<^verbatim>\<open>+\<close>, hence fresh objects nobody
  else holds: values), and the caller's path table with the list objects it refers to.
\<close>

record 's frame =
  V :: "'s dist"
  new_V :: "'s dist"
  new_path :: "'s paths"
  path :: "('s \<times> nat) list"
  heap :: "nat \<Rightarrow> 's list"
  free :: nat

subsection \<open>Construction, lines 5 to 35\<close>

text \<open>Lines 22 to 25: \<^verbatim>\<open>for state in self.hmm: self.priors[state] = 1.0 / len(self.hmm)\<close>.\<close>

definition uniform_priors :: "'s graph \<Rightarrow> 's dist" where
  "uniform_priors h =
     fold (\<lambda>state pr. AList.update state (1 / real (length h)) pr) (map fst h) []"

text \<open>Lines 32 to 34, the body of the inner loop for one edge of \<open>from_state\<close>.\<close>

definition add_edge :: "'s \<Rightarrow> 's \<times> real \<Rightarrow> 's rev_index \<Rightarrow> 's rev_index" where
  "add_edge from_state e inc =
     (let to_state = fst e; probability = snd e;
          inc1 = (if map_of inc to_state = None then AList.update to_state [] inc else inc)
      in AList.update to_state
           (AList.update from_state probability (the (map_of inc1 to_state))) inc1)"

text \<open>Lines 29 to 34.\<close>

definition build_incoming :: "'s graph \<Rightarrow> 's rev_index" where
  "build_incoming h =
     fold (\<lambda>from_state inc. fold (add_edge from_state) (the (map_of h from_state)) inc)
       (map fst h) []"

text \<open>
  \<^verbatim>\<open>__init__\<close>: the optional arguments \<^verbatim>\<open>priors\<close> and \<^verbatim>\<open>candidate_states\<close> are options;
  \<^verbatim>\<open>not priors\<close> holds for \<^verbatim>\<open>None\<close> and for the empty dict. No statement of the
  constructor raises.
\<close>

definition init ::
  "'s graph \<Rightarrow> ('s \<Rightarrow> 'o \<Rightarrow> real) \<Rightarrow> 's dist option \<Rightarrow> int \<Rightarrow> ('o \<Rightarrow> 's list) option \<Rightarrow> real
     \<Rightarrow> ('s, 'o) viterbi" where
  "init h ep pri cl cand sv =
     \<lparr> hmm = h,
       emission_probability = ep,
       constraint_length = cl,
       candidate_states = (case cand of Some c \<Rightarrow> c | None \<Rightarrow> (\<lambda>obs. map fst h)),
       priors = (case pri of None \<Rightarrow> uniform_priors h
                 | Some p \<Rightarrow> if p = [] then uniform_priors h else p),
       incoming = build_incoming h,
       smallV = sv \<rparr>"

subsection \<open>The normalizer, lines 87 to 94\<close>

definition normalizeV :: "('s, 'o) viterbi \<Rightarrow> 's dist \<Rightarrow> 's dist" where
  "normalizeV vit Vd =
     (let sum_prob = sum_list (map snd Vd)
      in if sum_prob = 0 then priors vit
         else map (\<lambda>state. (state, the (map_of Vd state) / sum_prob)) (map fst Vd))"

subsection \<open>One step, lines 37 to 85\<close>

text \<open>Lines 54 to 56: the predecessors, driven by the reverse index.\<close>

definition by_incoming :: "('s \<times> real) list \<Rightarrow> 's dist \<Rightarrow> ('s \<times> real) list" where
  "by_incoming inc Vd =
     [(from_state, the (map_of inc from_state)).
        from_state \<leftarrow> map fst inc,
        (case map_of Vd from_state of None \<Rightarrow> False | Some v \<Rightarrow> v > 0)]"

text \<open>Lines 59 to 60: the predecessors, driven by the distribution.\<close>

definition by_dist :: "('s \<times> real) list \<Rightarrow> 's dist \<Rightarrow> ('s \<times> real) list" where
  "by_dist inc Vd =
     [(from_state, the (map_of inc from_state)).
        from_state \<leftarrow> map fst Vd, map_of inc from_state \<noteq> None]"

text \<open>Lines 53 to 60.\<close>

definition nonzero_incoming :: "('s \<times> real) list \<Rightarrow> 's dist \<Rightarrow> ('s \<times> real) list" where
  "nonzero_incoming inc Vd =
     (if length inc < length Vd then by_incoming inc Vd else by_dist inc Vd)"

text \<open>Lines 64 to 68.\<close>

definition from_probs :: "'s dist \<Rightarrow> real \<Rightarrow> ('s \<times> real) list \<Rightarrow> (real \<times> 's) list" where
  "from_probs Vd ep ni = map (\<lambda>ftp. (the (map_of Vd (fst ftp)) * ep * snd ftp, fst ftp)) ni"

text \<open>
  Line 70, \<^verbatim>\<open>max(from_probs, key=itemgetter(0))\<close> on a non-empty list \<open>m # xs\<close>: the
  first element with the greatest key, since a later element replaces the current
  maximum only when its key is strictly greater.
\<close>

fun max_by_key :: "real \<times> 's \<Rightarrow> (real \<times> 's) list \<Rightarrow> real \<times> 's" where
  "max_by_key m [] = m"
| "max_by_key m (x # xs) = max_by_key (if fst m < fst x then x else m) xs"

text \<open>Lines 73 to 74: \<^verbatim>\<open>if max_from not in path: path[max_from] = []\<close>, a new list object.\<close>

definition ensure_entry :: "'s \<Rightarrow> 's frame \<Rightarrow> 's frame" where
  "ensure_entry max_from fr =
     (if map_of (path fr) max_from = None
      then fr\<lparr> path := AList.update max_from (free fr) (path fr),
               heap := (heap fr)(free fr := []),
               free := Suc (free fr) \<rparr>
      else fr)"

text \<open>
  Lines 75 to 76: \<^verbatim>\<open>if len(path[max_from]) == self.constraint_length: path[max_from].pop(0)\<close>.
  The list object is changed in place; \<^verbatim>\<open>pop(0)\<close> on an empty list raises.
\<close>

definition truncate_entry :: "int \<Rightarrow> 's \<Rightarrow> 's frame \<Rightarrow> error \<times> 's frame + 's frame" where
  "truncate_entry cl max_from fr =
     (let a = the (map_of (path fr) max_from)
      in if int (length (heap fr a)) = cl
         then (if heap fr a = [] then Inl (IndexError, fr)
               else Inr (fr\<lparr> heap := (heap fr)(a := tl (heap fr a)) \<rparr>))
         else Inr fr)"

text \<open>Line 77: \<^verbatim>\<open>new_path[to_state] = path[max_from] + [to_state]\<close>.\<close>

definition record_path :: "'s \<Rightarrow> 's \<Rightarrow> 's frame \<Rightarrow> 's frame" where
  "record_path to_state max_from fr =
     fr\<lparr> new_path :=
          AList.update to_state (heap fr (the (map_of (path fr) max_from)) @ [to_state])
            (new_path fr) \<rparr>"

text \<open>Lines 72 to 77: the path of \<open>to_state\<close>, from the one of its best predecessor.\<close>

definition extend_from :: "int \<Rightarrow> 's \<Rightarrow> 's \<Rightarrow> 's frame \<Rightarrow> error \<times> 's frame + 's frame" where
  "extend_from cl to_state max_from fr =
     (case truncate_entry cl max_from (ensure_entry max_from fr) of
        Inl e \<Rightarrow> Inl e
      | Inr fr3 \<Rightarrow> Inr (record_path to_state max_from fr3))"

text \<open>Lines 50 to 77, the body of the loop for one pair of \<^verbatim>\<open>nonzero_eps\<close>.\<close>

definition update_state ::
  "('s, 'o) viterbi \<Rightarrow> 's \<times> real \<Rightarrow> 's frame \<Rightarrow> error \<times> 's frame + 's frame" where
  "update_state vit se fr =
     (let to_state = fst se; ep = snd se
      in case map_of (incoming vit) to_state of
           None \<Rightarrow> Inl (KeyError, fr)
         | Some inc \<Rightarrow>
             (case from_probs (V fr) ep (nonzero_incoming inc (V fr)) of
                [] \<Rightarrow> Inr fr
              | fp # fps \<Rightarrow>
                  (let m = max_by_key fp fps; max_prob = fst m; max_from = snd m
                   in extend_from (constraint_length vit) to_state max_from
                        (fr\<lparr> new_V := AList.update to_state max_prob (new_V fr) \<rparr>))))"

text \<open>A \<^verbatim>\<open>for\<close> loop whose body may raise: the first exception ends it.\<close>

fun for_loop ::
  "('a \<Rightarrow> 'f \<Rightarrow> error \<times> 'f + 'f) \<Rightarrow> 'a list \<Rightarrow> 'f \<Rightarrow> error \<times> 'f + 'f" where
  "for_loop body [] fr = Inr fr"
| "for_loop body (x # xs) fr =
     (case body x fr of Inl e \<Rightarrow> Inl e | Inr fr' \<Rightarrow> for_loop body xs fr')"

text \<open>Lines 46 to 48.\<close>

definition nonzero_eps :: "('s, 'o) viterbi \<Rightarrow> 'o \<Rightarrow> ('s \<times> real) list" where
  "nonzero_eps vit obs =
     filter (\<lambda>state_ep. snd state_ep > 0)
       (map (\<lambda>candi_state. (candi_state, emission_probability vit candi_state obs))
          (candidate_states vit obs))"

text \<open>
  Lines 80 to 84, the body of the pruning loop. The states of \<^verbatim>\<open>small\<close> are keys of
  \<^verbatim>\<open>new_V\<close>, so \<^verbatim>\<open>del new_V[state]\<close> finds its key.
\<close>

definition prune :: "'s \<Rightarrow> 's dist \<times> 's paths \<Rightarrow> 's dist \<times> 's paths" where
  "prune state vp =
     (AList.delete state (fst vp),
      if map_of (snd vp) state \<noteq> None then AList.delete state (snd vp) else snd vp)"

text \<open>Lines 78 to 85.\<close>

definition finish :: "('s, 'o) viterbi \<Rightarrow> 's frame \<Rightarrow> 's dist \<times> 's paths" where
  "finish vit fr =
     (let nV = normalizeV vit (new_V fr);
          small = filter (\<lambda>x. the (map_of nV x) < smallV vit) (map fst nV)
      in fold prune small (nV, new_path fr))"

text \<open>What the caller holds after the call.\<close>

definition caller_view :: "'s store \<Rightarrow> 's frame \<Rightarrow> 's store" where
  "caller_view s fr =
     \<lparr> dist_obj = (case dist_obj s of None \<Rightarrow> None | Some v \<Rightarrow> Some (V fr)),
       path_obj = path fr,
       list_objs = heap fr,
       next_free = free fr \<rparr>"

text \<open>Lines 41 to 44: the variables before the loop.\<close>

definition enter :: "('s, 'o) viterbi \<Rightarrow> 's store \<Rightarrow> 's frame" where
  "enter vit s =
     \<lparr> V = (case dist_obj s of None \<Rightarrow> priors vit | Some v \<Rightarrow> v),
       new_V = [],
       new_path = [],
       path = path_obj s,
       heap = list_objs s,
       free = next_free s \<rparr>"

text \<open>
  \<^verbatim>\<open>step(obs, V, path)\<close>, with \<^verbatim>\<open>V\<close> and \<^verbatim>\<open>path\<close> the objects \<open>dist_obj s\<close> and
  \<open>path_obj s\<close> of the caller's store.
\<close>

definition step ::
  "('s, 'o) viterbi \<Rightarrow> 'o \<Rightarrow> 's store \<Rightarrow> (error + 's dist \<times> 's paths) \<times> 's store" where
  "step vit obs s =
     (case for_loop (update_state vit) (nonzero_eps vit obs) (enter vit s) of
        Inl (e, fr) \<Rightarrow> (Inl e, caller_view s fr)
      | Inr fr \<Rightarrow> (Inr (finish vit fr), caller_view s fr))"

subsection \<open>Reading outcomes and path tables\<close>

text \<open>The variables a loop ends with, whether it raised or not.\<close>

definition final :: "error \<times> 'f + 'f \<Rightarrow> 'f" where
  "final r = (case r of Inl ef \<Rightarrow> snd ef | Inr f \<Rightarrow> f)"

text \<open>The list recorded for a state in the caller's path table; empty when it has none.\<close>

definition slot :: "'s frame \<Rightarrow> 's \<Rightarrow> 's list" where
  "slot fr f = (case map_of (path fr) f of None \<Rightarrow> [] | Some a \<Rightarrow> heap fr a)"

definition recorded :: "'s store \<Rightarrow> 's \<Rightarrow> 's list" where
  "recorded s f = (case map_of (path_obj s) f of None \<Rightarrow> [] | Some a \<Rightarrow> list_objs s a)"

subsection \<open>Example inputs\<close>

text \<open>A caller that passes \<^verbatim>\<open>V = None\<close> and \<^verbatim>\<open>path = {}\<close>.\<close>

definition empty_store :: "string store" where
  "empty_store = \<lparr> dist_obj = None, path_obj = [], list_objs = (\<lambda>a. []), next_free = 0 \<rparr>"

text \<open>
  \<^verbatim>\<open>Viterbi({'A': [('B', 1.0)], 'B': []}, lambda s, o: 1.0)\<close>: state \<open>A\<close> has no
  incoming edge.
\<close>

definition source_engine :: "(string, unit) viterbi" where
  "source_engine =
     init [(''A'', [(''B'', 1)]), (''B'', [])] (\<lambda>s obs. 1) None 10 None (1 / 10 ^ 11)"

text \<open>
  \<^verbatim>\<open>Viterbi({'A': [('B', 1.0)], 'D': [('B', 1.0)], 'C': [('C', 1.0)]}, lambda s, o: 1.0,
  priors={'A': 0.0, 'C': 1.0}, candidate_states=lambda o: ['B'])\<close>: the prior of \<open>A\<close> is 0.
\<close>

definition zero_prior_engine :: "(string, unit) viterbi" where
  "zero_prior_engine =
     init [(''A'', [(''B'', 1)]), (''D'', [(''B'', 1)]), (''C'', [(''C'', 1)])] (\<lambda>s obs. 1)
       (Some [(''A'', 0), (''C'', 1)]) 10 (Some (\<lambda>obs. [''B''])) (1 / 10 ^ 11)"

text \<open>
  \<^verbatim>\<open>Viterbi({'A': [('A', 0.5), ('B', 0.5)], 'B': [('B', 1.0)]}, lambda s, o: 1.0,
  priors={'A': 1.0}, constraint_length=2)\<close>: from the priors, \<open>A\<close> is the best
  predecessor of both \<open>A\<close> and \<open>B\<close>.
\<close>

definition two_state_engine :: "(string, unit) viterbi" where
  "two_state_engine =
     init [(''A'', [(''A'', 1 / 2), (''B'', 1 / 2)]), (''B'', [(''B'', 1)])] (\<lambda>s obs. 1)
       (Some [(''A'', 1)]) 2 None (1 / 10 ^ 11)"

text \<open>A caller that passes \<^verbatim>\<open>V = None\<close> and \<^verbatim>\<open>path = {'A': ['X', 'A']}\<close>.\<close>

definition window_store :: "string store" where
  "window_store =
     \<lparr> dist_obj = None, path_obj = [(''A'', 0)],
       list_objs = (\<lambda>a. if a = 0 then [''X'', ''A''] else []), next_free = 1 \<rparr>"

text \<open>
  \<^verbatim>\<open>Viterbi({'A': [('A', 1.0)]}, lambda s, o: 1.0, constraint_length=0)\<close>.
\<close>

definition zero_window_engine :: "(string, unit) viterbi" where
  "zero_window_engine = init [(''A'', [(''A'', 1)])] (\<lambda>s obs. 1) None 0 None (1 / 10 ^ 11)"

text \<open>
  \<^verbatim>\<open>Viterbi({'A': [('A', 5.0)]}, lambda s, o: 1.0)\<close>: a transition probability of 5.
\<close>

definition malformed_engine :: "(string, unit) viterbi" where
  "malformed_engine = init [(''A'', [(''A'', 5)])] (\<lambda>s obs. 1) None 10 None (1 / 10 ^ 11)"

text \<open>
  \<^verbatim>\<open>Viterbi({'A': [('A', 1.0)]}, lambda s, o: 0.0, priors={'A': 1.0, 'B': 0.0})\<close>: no
  state emits anything, and the prior of \<open>B\<close> is below the floor of \<open>1e-11\<close>.
\<close>

definition silent_engine :: "(string, unit) viterbi" where
  "silent_engine =
     init [(''A'', [(''A'', 1)])] (\<lambda>s obs. 0) (Some [(''A'', 1), (''B'', 0)]) 10 None (1 / 10 ^ 11)"

text \<open>\<^verbatim>\<open>Viterbi({'A': [('A', 1.0)]}, lambda s, o: 0.0)\<close>, with the uniform priors.\<close>

definition mute_engine :: "(string, unit) viterbi" where
  "mute_engine = init [(''A'', [(''A'', 1)])] (\<lambda>s obs. 0) None 10 None (1 / 10 ^ 11)"

subsection \<open>Reading the reverse index and the scores\<close>

text \<open>\<^verbatim>\<open>self.incoming[to_state][from_state]\<close>, when both keys are present.\<close>

definition rev_prob :: "'s rev_index \<Rightarrow> 's \<Rightarrow> 's \<Rightarrow> real option" where
  "rev_prob inc to_state from_state =
     (case map_of inc to_state of None \<Rightarrow> None | Some m \<Rightarrow> map_of m from_state)"

text \<open>
  The probability of the edge from \<open>from_state\<close> to \<open>to_state\<close> in the transition graph:
  the last one listed in \<^verbatim>\<open>hmm[from_state]\<close>, should the list name \<open>to_state\<close> twice.
\<close>

definition last_edge :: "'s graph \<Rightarrow> 's \<Rightarrow> 's \<Rightarrow> real option" where
  "last_edge h from_state to_state =
     (case map_of h from_state of None \<Rightarrow> None | Some es \<Rightarrow> map_of (rev es) to_state)"

text \<open>
  A malformed transition graph in the words of the specification: some transition
  probability lies outside \<open>(0, 1]\<close>.
\<close>

definition malformed :: "'s graph \<Rightarrow> bool" where
  "malformed h = list_ex (\<lambda>fe. list_ex (\<lambda>tp. \<not> (0 < snd tp \<and> snd tp \<le> 1)) (snd fe)) h"

text \<open>
  The distribution before normalization: \<^verbatim>\<open>new_V\<close> as line 78 finds it, when the loop of
  lines 50 to 77 has not raised.
\<close>

definition scores :: "('s, 'o) viterbi \<Rightarrow> 'o \<Rightarrow> 's store \<Rightarrow> 's dist option" where
  "scores vit obs s =
     (case for_loop (update_state vit) (nonzero_eps vit obs) (enter vit s) of
        Inl e \<Rightarrow> None
      | Inr fr \<Rightarrow> Some (new_V fr))"

subsection \<open>The rule of the path extension\<close>

text \<open>
  The truncation-and-append rule as the specification words it: a path that has exactly
  \<^verbatim>\<open>constraint_length\<close> elements loses its oldest element, then the new state is
  appended.
\<close>

definition extend_rule :: "int \<Rightarrow> 's list \<Rightarrow> 's \<Rightarrow> 's list" where
  "extend_rule cl p to_state = (if int (length p) = cl then tl p else p) @ [to_state]"

text \<open>
  Lines 53 to 70 for one state \<open>to_state\<close> and the distribution \<^verbatim>\<open>step\<close> starts from:
  the predecessor \<^verbatim>\<open>max\<close> selects, if \<open>to_state\<close> has an entry in the reverse index and a
  qualifying predecessor.
\<close>

definition arg_max_from :: "('s, 'o) viterbi \<Rightarrow> 'o \<Rightarrow> 's store \<Rightarrow> 's \<Rightarrow> 's option" where
  "arg_max_from vit obs s to_state =
     (case map_of (incoming vit) to_state of
        None \<Rightarrow> None
      | Some inc \<Rightarrow>
          (case from_probs (V (enter vit s)) (emission_probability vit to_state obs)
                  (nonzero_incoming inc (V (enter vit s))) of
             [] \<Rightarrow> None
           | fp # fps \<Rightarrow> Some (snd (max_by_key fp fps))))"

text \<open>Every address in the caller's path table is the address of a list object.\<close>

definition allocated :: "'s store \<Rightarrow> bool" where
  "allocated s \<longleftrightarrow> (\<forall>ka \<in> set (path_obj s). snd ka < next_free s)"

subsection \<open>Invariants of the loop\<close>

text \<open>Every list of the caller's table and every new path has at most \<open>cl\<close> elements.\<close>

definition bounded :: "int \<Rightarrow> 's frame \<Rightarrow> bool" where
  "bounded cl fr \<longleftrightarrow>
     (\<forall>ka \<in> set (path fr). int (length (heap fr (snd ka))) \<le> cl) \<and>
     (\<forall>tp \<in> set (new_path fr). int (length (snd tp)) \<le> cl)"

text \<open>
  How the caller's path table and list objects relate to what they were before the call:
  keys are only added, a new key refers to a new, empty list, and an old list is unchanged
  or has lost its first element, which happens only to a list of \<open>cl\<close> elements.
\<close>

definition evolves :: "int \<Rightarrow> 's store \<Rightarrow> 's frame \<Rightarrow> bool" where
  "evolves cl s fr \<longleftrightarrow>
     next_free s \<le> free fr \<and>
     (\<forall>f a. map_of (path_obj s) f = Some a \<longrightarrow> map_of (path fr) f = Some a) \<and>
     (\<forall>f. map_of (path_obj s) f = None \<longrightarrow>
        map_of (path fr) f = None \<or>
        (\<exists>a. map_of (path fr) f = Some a \<and> next_free s \<le> a \<and> a < free fr \<and> heap fr a = [])) \<and>
     (\<forall>a < next_free s.
        heap fr a = list_objs s a \<or>
        (int (length (list_objs s a)) = cl \<and> list_objs s a \<noteq> [] \<and>
         heap fr a = tl (list_objs s a)))"

text \<open>Every new path is the rule applied to the pre-step path of the best predecessor.\<close>

definition explained :: "('s, 'o) viterbi \<Rightarrow> 'o \<Rightarrow> 's store \<Rightarrow> 's frame \<Rightarrow> bool" where
  "explained vit obs s fr \<longleftrightarrow>
     (\<forall>t p. map_of (new_path fr) t = Some p \<longrightarrow>
        (\<exists>f. arg_max_from vit obs s t = Some f \<and>
             p = extend_rule (constraint_length vit) (recorded s f) t))"

text \<open>Every state with a new path has a new score.\<close>

definition keys_covered :: "'s frame \<Rightarrow> bool" where
  "keys_covered fr \<longleftrightarrow> fst ` set (new_path fr) \<subseteq> fst ` set (new_V fr)"

section \<open>Properties\<close>

lemmas init_eval = init_def build_incoming_def add_edge_def uniform_priors_def Let_def

lemmas step_eval = step_def enter_def nonzero_eps_def update_state_def extend_from_def
  ensure_entry_def truncate_entry_def record_path_def nonzero_incoming_def by_dist_def
  by_incoming_def from_probs_def finish_def normalizeV_def prune_def caller_view_def Let_def

subsection \<open>Loops and their invariants\<close>

lemma final_simps [simp]: "final (Inl (e, f)) = f" "final (Inr f) = f"
  by (simp_all add: final_def)

lemma for_loop_final:
  assumes "I fr" and "\<And>x f. x \<in> set xs \<Longrightarrow> I f \<Longrightarrow> I (final (body x f))"
  shows "I (final (for_loop body xs fr))"
  using assms
proof (induction xs arbitrary: fr)
  case Nil
  then show ?case by simp
next
  case (Cons x xs)
  show ?case
  proof (cases "body x fr")
    case (Inl ef)
    with Cons.prems(1) Cons.prems(2)[of x fr] show ?thesis by simp
  next
    case (Inr fr')
    with Cons.prems(1) Cons.prems(2)[of x fr] have "I fr'" by simp
    then have "I (final (for_loop body xs fr'))"
      by (rule Cons.IH) (simp add: Cons.prems(2))
    with Inr show ?thesis by simp
  qed
qed

lemma step_snd:
  "snd (step vit obs s) =
     caller_view s (final (for_loop (update_state vit) (nonzero_eps vit obs) (enter vit s)))"
  by (simp add: step_def split: sum.splits prod.splits)

text \<open>The three ways one pass of the loop body can go.\<close>

lemma update_state_cases:
  obtains
    (raises) "map_of (incoming vit) (fst se) = None"
      "update_state vit se fr = Inl (KeyError, fr)"
  | (skips) inc where "map_of (incoming vit) (fst se) = Some inc"
      "from_probs (V fr) (snd se) (nonzero_incoming inc (V fr)) = []"
      "update_state vit se fr = Inr fr"
  | (extends) inc fp fps where "map_of (incoming vit) (fst se) = Some inc"
      "from_probs (V fr) (snd se) (nonzero_incoming inc (V fr)) = fp # fps"
      "update_state vit se fr =
         extend_from (constraint_length vit) (fst se) (snd (max_by_key fp fps))
           (fr\<lparr> new_V := AList.update (fst se) (fst (max_by_key fp fps)) (new_V fr) \<rparr>)"
proof (cases "map_of (incoming vit) (fst se)")
  case None
  then show ?thesis by (intro raises) (simp_all add: update_state_def)
next
  case (Some inc)
  show ?thesis
  proof (cases "from_probs (V fr) (snd se) (nonzero_incoming inc (V fr))")
    case Nil
    with Some show ?thesis by (intro skips[of inc]) (simp_all add: update_state_def)
  next
    case (Cons fp fps)
    with Some show ?thesis
      by (intro extends[of inc fp fps]) (simp_all add: update_state_def Let_def)
  qed
qed

text \<open>The three ways the extension of a path can go.\<close>

lemma extend_from_cases:
  obtains
    (fails) "int (length (slot fr f)) = cl" "slot fr f = []"
      "extend_from cl t f fr = Inl (IndexError, ensure_entry f fr)"
  | (pops) "int (length (slot fr f)) = cl" "slot fr f \<noteq> []"
      "extend_from cl t f fr =
         Inr (record_path t f ((ensure_entry f fr)
             \<lparr> heap := (heap (ensure_entry f fr))
                 (the (map_of (path (ensure_entry f fr)) f) := tl (slot fr f)) \<rparr>))"
  | (keeps) "int (length (slot fr f)) \<noteq> cl"
      "extend_from cl t f fr = Inr (record_path t f (ensure_entry f fr))"
proof -
  have s: "heap (ensure_entry f fr) (the (map_of (path (ensure_entry f fr)) f)) = slot fr f"
    by (auto simp: ensure_entry_def slot_def update_conv')
  show ?thesis
  proof (cases "int (length (slot fr f)) = cl")
    case False
    then show ?thesis
      by (intro keeps) (simp_all add: extend_from_def truncate_entry_def Let_def s)
  next
    case True
    show ?thesis
    proof (cases "slot fr f = []")
      case e: True
      with True show ?thesis
        by (intro fails) (simp_all add: extend_from_def truncate_entry_def Let_def s)
    next
      case ne: False
      with True show ?thesis
        by (intro pops) (simp_all add: extend_from_def truncate_entry_def Let_def s)
    qed
  qed
qed

subsection \<open>The distribution argument is only read\<close>

lemma ensure_entry_V [simp]: "V (ensure_entry f fr) = V fr"
  by (simp add: ensure_entry_def)

lemma record_path_V [simp]: "V (record_path t f fr) = V fr"
  by (simp add: record_path_def)

lemma extend_from_V: "V (final (extend_from cl t f fr)) = V fr"
  by (cases rule: extend_from_cases[of fr f cl t]) simp_all

lemma update_state_V: "V (final (update_state vit se fr)) = V fr"
  by (cases rule: update_state_cases[of vit se fr]) (simp_all add: extend_from_V)

lemma loop_V: "V (final (for_loop (update_state vit) xs fr)) = V fr"
  by (rule for_loop_final [where I = "\<lambda>f. V f = V fr"]) (simp_all add: update_state_V)

text \<open>
  C10: whatever the engine, the observation and the caller's objects, and whether the
  call returns or raises, the object passed as \<^verbatim>\<open>V\<close> holds after the call what it held
  before: \<^verbatim>\<open>step\<close> only reads it, and the distribution it returns is another dict.
\<close>

theorem step_keeps_distribution: "dist_obj (snd (step vit obs s)) = dist_obj s"
  by (simp add: step_snd caller_view_def loop_V enter_def split: option.splits)

subsection \<open>States without incoming edges\<close>

text \<open>
  C1: on the graph \<open>A \<rightarrow> B\<close> with every emission 1, the default candidate set holds
  \<open>A\<close>, a state with a positive emission probability and no incoming edge. The
  constructor made no entry for \<open>A\<close> in the reverse index, and \<^verbatim>\<open>step\<close> raises
  \<^verbatim>\<open>KeyError\<close> at \<^verbatim>\<open>self.incoming[to_state]\<close> instead of leaving \<open>A\<close> without a score.
\<close>

theorem step_source_state_raises:
  "incoming source_engine = [(''B'', [(''A'', 1)])] \<and>
   candidate_states source_engine () = [''A'', ''B''] \<and>
   fst (step source_engine () empty_store) = Inl KeyError"
  by (simp add: source_engine_def empty_store_def init_eval step_eval)

subsection \<open>Path keys and distribution keys\<close>

text \<open>
  C2: with a prior of 0 for \<open>A\<close>, the only predecessor of the candidate \<open>B\<close> present in
  the distribution, state \<open>B\<close> gets the score 0 and a path; the scores sum to 0, the
  normalizer returns the priors, and the path of \<open>B\<close> stays in the returned table although
  \<open>B\<close> is no key of the returned distribution.
\<close>

theorem step_path_key_without_mass:
  "fst (step zero_prior_engine () empty_store) = Inr ([(''C'', 1)], [(''B'', [''B''])])"
  by (simp add: zero_prior_engine_def empty_store_def init_eval step_eval)

subsection \<open>The two ways to collect predecessors\<close>

lemma in_by_incoming:
  "(f, p) \<in> set (by_incoming inc Vd) \<longleftrightarrow>
     map_of inc f \<noteq> None \<and> p = the (map_of inc f) \<and> (\<exists>v. map_of Vd f = Some v \<and> 0 < v)"
proof -
  have "set (by_incoming inc Vd) =
      (\<lambda>g. (g, the (map_of inc g))) `
        {g \<in> set (map fst inc). case map_of Vd g of None \<Rightarrow> False | Some v \<Rightarrow> 0 < v}"
    by (auto simp: by_incoming_def)
  moreover have "g \<in> set (map fst inc) \<longleftrightarrow> map_of inc g \<noteq> None" for g
    by (simp add: map_of_eq_None_iff)
  ultimately show ?thesis by (auto split: option.splits)
qed

lemma in_by_dist:
  "(f, p) \<in> set (by_dist inc Vd) \<longleftrightarrow>
     map_of Vd f \<noteq> None \<and> map_of inc f \<noteq> None \<and> p = the (map_of inc f)"
proof -
  have "set (by_dist inc Vd) =
      (\<lambda>g. (g, the (map_of inc g))) ` {g \<in> set (map fst Vd). map_of inc g \<noteq> None}"
    by (auto simp: by_dist_def)
  moreover have "g \<in> set (map fst Vd) \<longleftrightarrow> map_of Vd g \<noteq> None" for g
    by (simp add: map_of_eq_None_iff)
  ultimately show ?thesis by auto
qed

text \<open>On a distribution without a state of mass 0 or less the two agree as sets.\<close>

lemma strategies_agree_on_positive:
  assumes "\<forall>sp \<in> set Vd. 0 < snd sp"
  shows "set (by_incoming inc Vd) = set (by_dist inc Vd)"
proof -
  have pos: "0 < v" if "map_of Vd f = Some v" for f v
    using assms map_of_SomeD[OF that] by fastforce
  have "(f, p) \<in> set (by_incoming inc Vd) \<longleftrightarrow> (f, p) \<in> set (by_dist inc Vd)" for f p
    unfolding in_by_incoming in_by_dist using pos[of f] by auto
  then show ?thesis by auto
qed

text \<open>
  Every lookup \<^verbatim>\<open>V[from_state]\<close> of lines 65 and \<^verbatim>\<open>self.incoming[to_state][from_state]\<close> of
  lines 54 and 59 finds its key.
\<close>

lemma nonzero_incoming_defined:
  assumes "(f, p) \<in> set (nonzero_incoming inc Vd)"
  shows "map_of Vd f \<noteq> None \<and> map_of inc f = Some p"
proof (cases "length inc < length Vd")
  case True
  with assms have "(f, p) \<in> set (by_incoming inc Vd)" by (simp add: nonzero_incoming_def)
  then show ?thesis by (auto simp: in_by_incoming)
next
  case False
  with assms have "(f, p) \<in> set (by_dist inc Vd)" by (simp add: nonzero_incoming_def)
  then show ?thesis by (auto simp: in_by_dist)
qed

text \<open>
  C5: for the candidate \<open>B\<close> of the same engine and its priors as distribution, iterating
  the reverse index keeps no predecessor (\<open>A\<close> has mass 0, \<open>D\<close> is absent), while
  iterating the distribution keeps \<open>A\<close>: the second branch does not test the mass. Both
  dicts have two entries, so \<^verbatim>\<open>step\<close> takes the second branch.
\<close>

theorem predecessor_strategies_differ:
  "map_of (incoming zero_prior_engine) ''B'' = Some [(''A'', 1), (''D'', 1)] \<and>
   priors zero_prior_engine = [(''A'', 0), (''C'', 1)] \<and>
   by_incoming [(''A'', 1), (''D'', 1)] [(''A'', 0), (''C'', 1)] = ([] :: (string \<times> real) list) \<and>
   by_dist [(''A'', 1), (''D'', 1)] [(''A'', 0), (''C'', 1)] = [(''A'', 1)] \<and>
   nonzero_incoming [(''A'', 1), (''D'', 1)] [(''A'', 0), (''C'', 1)] = [(''A'', 1)]"
  by (simp add: zero_prior_engine_def init_eval by_incoming_def by_dist_def nonzero_incoming_def)

subsection \<open>The window bound\<close>

lemma in_set_update:
  "x \<in> set (AList.update k v al) \<Longrightarrow> x = (k, v) \<or> x \<in> set al"
  by (induction al) (auto split: if_splits)

lemma set_delete_subset: "set (AList.delete k al) \<subseteq> set al"
  by (auto simp: AList.delete_eq)

lemma ensure_entry_slot:
  "heap (ensure_entry f fr) (the (map_of (path (ensure_entry f fr)) f)) = slot fr f"
  by (auto simp: ensure_entry_def slot_def update_conv')

lemma slot_bounded:
  assumes "bounded cl fr" "0 \<le> cl"
  shows "int (length (slot fr f)) \<le> cl"
proof (cases "map_of (path fr) f")
  case None
  with assms show ?thesis by (simp add: slot_def)
next
  case (Some a)
  then have "(f, a) \<in> set (path fr)" by (rule map_of_SomeD)
  with assms(1) Some show ?thesis by (fastforce simp: slot_def bounded_def)
qed

lemma ensure_entry_bounded:
  assumes "bounded cl fr" "0 \<le> cl"
  shows "bounded cl (ensure_entry f fr)"
  using assms
  by (auto simp: bounded_def ensure_entry_def dest!: in_set_update)

lemma record_path_bounded:
  assumes "bounded cl fr" "int (length (heap fr (the (map_of (path fr) f)))) < cl"
  shows "bounded cl (record_path t f fr)"
  using assms
  by (auto simp: bounded_def record_path_def dest!: in_set_update)

lemma extend_from_bounded:
  assumes "bounded cl fr" "0 \<le> cl"
  shows "bounded cl (final (extend_from cl t f fr))"
proof (cases rule: extend_from_cases[of fr f cl t])
  case fails
  with assms show ?thesis by (simp add: ensure_entry_bounded)
next
  case pops
  let ?E = "ensure_entry f fr"
  let ?a = "the (map_of (path ?E) f)"
  let ?P = "?E\<lparr> heap := (heap ?E)(?a := tl (slot fr f)) \<rparr>"
  have E: "bounded cl ?E" using assms by (rule ensure_entry_bounded)
  have len: "int (length (tl (slot fr f))) < cl" using pops(1,2) by (cases "slot fr f") auto
  have "bounded cl ?P"
    using E len by (auto simp: bounded_def)
  moreover have "int (length (heap ?P (the (map_of (path ?P) f)))) < cl"
    using len by simp
  ultimately have "bounded cl (record_path t f ?P)" by (rule record_path_bounded)
  with pops(3) show ?thesis by simp
next
  case keeps
  have "int (length (slot fr f)) < cl"
    using slot_bounded[OF assms, of f] keeps(1) by simp
  then have "bounded cl (record_path t f (ensure_entry f fr))"
    by (intro record_path_bounded ensure_entry_bounded assms) (simp add: ensure_entry_slot)
  with keeps(2) show ?thesis by simp
qed

lemma update_state_bounded:
  assumes "bounded cl fr" "0 \<le> cl" "cl = constraint_length vit"
  shows "bounded cl (final (update_state vit se fr))"
proof (cases rule: update_state_cases[of vit se fr])
  case raises
  with assms show ?thesis by simp
next
  case (skips inc)
  with assms show ?thesis by simp
next
  case (extends inc fp fps)
  have "bounded cl (fr\<lparr> new_V := AList.update (fst se) (fst (max_by_key fp fps)) (new_V fr) \<rparr>)"
    using assms(1) by (simp add: bounded_def)
  then show ?thesis
    unfolding extends(3) assms(3)[symmetric] using assms(2) by (rule extend_from_bounded)
qed

lemma loop_bounded:
  assumes "bounded (constraint_length vit) fr" "0 \<le> constraint_length vit"
  shows "bounded (constraint_length vit) (final (for_loop (update_state vit) xs fr))"
  using assms(1)
  by (rule for_loop_final) (simp add: update_state_bounded assms(2))

lemma prune_paths_subset: "set (snd (fold prune ks vp)) \<subseteq> set (snd vp)"
proof (induction ks arbitrary: vp)
  case Nil
  show ?case by simp
next
  case (Cons k ks)
  have "set (snd (prune k vp)) \<subseteq> set (snd vp)"
    using set_delete_subset[of k "snd vp"] by (simp add: prune_def)
  with Cons[of "prune k vp"] show ?case by auto
qed

lemma step_returns:
  assumes "fst (step vit obs s) = Inr r"
  obtains fr where
    "for_loop (update_state vit) (nonzero_eps vit obs) (enter vit s) = Inr fr"
    "r = finish vit fr"
  using assms by (auto simp: step_def split: sum.splits prod.splits)

text \<open>
  C7: with a window length of at least 0, when every list of the path table passed to
  \<^verbatim>\<open>step\<close> has at most \<^verbatim>\<open>constraint_length\<close> elements and \<^verbatim>\<open>step\<close> returns, every path
  of the table it returns has at most \<^verbatim>\<open>constraint_length\<close> elements.
\<close>

theorem path_window_bound:
  assumes "0 \<le> constraint_length vit"
    and "\<forall>ka \<in> set (path_obj s). int (length (list_objs s (snd ka))) \<le> constraint_length vit"
    and "fst (step vit obs s) = Inr (V', P')"
  shows "\<forall>tp \<in> set P'. int (length (snd tp)) \<le> constraint_length vit"
proof -
  from assms(3) obtain fr where
    loop: "for_loop (update_state vit) (nonzero_eps vit obs) (enter vit s) = Inr fr"
    and r: "(V', P') = finish vit fr"
    by (rule step_returns)
  have "bounded (constraint_length vit) (enter vit s)"
    using assms(2) by (simp add: bounded_def enter_def)
  then have "bounded (constraint_length vit)
      (final (for_loop (update_state vit) (nonzero_eps vit obs) (enter vit s)))"
    using assms(1) by (rule loop_bounded)
  with loop have b: "bounded (constraint_length vit) fr" by simp
  have "set P' \<subseteq> set (new_path fr)"
    using prune_paths_subset[of _ "(_, new_path fr)"] r[symmetric]
    by (simp add: finish_def Let_def) (metis snd_conv)
  with b show ?thesis by (auto simp: bounded_def)
qed

theorem path_window_bound_witness:
  "constraint_length two_state_engine = 2 \<and>
   path_obj window_store = [(''A'', 0)] \<and>
   list_objs window_store 0 = [''X'', ''A''] \<and>
   fst (step two_state_engine () window_store)
     = Inr ([(''A'', 1 / 2), (''B'', 1 / 2)], [(''A'', [''A'', ''A'']), (''B'', [''A'', ''B''])]) \<and>
   int (length [''A'', ''A'']) \<le> constraint_length two_state_engine \<and>
   int (length [''A'', ''B'']) \<le> constraint_length two_state_engine"
proof -
  have a: "0 \<le> constraint_length two_state_engine"
    by (simp add: two_state_engine_def init_def)
  have b: "\<forall>ka \<in> set (path_obj window_store).
      int (length (list_objs window_store (snd ka))) \<le> constraint_length two_state_engine"
    by (simp add: two_state_engine_def init_def window_store_def)
  have c: "fst (step two_state_engine () window_store)
     = Inr ([(''A'', 1 / 2), (''B'', 1 / 2)], [(''A'', [''A'', ''A'']), (''B'', [''A'', ''B''])])"
    by (simp add: two_state_engine_def window_store_def init_eval step_eval del: not_None_eq)
  have d: "constraint_length two_state_engine = 2"
    by (simp add: two_state_engine_def init_def)
  show ?thesis
    using c d path_window_bound[OF a b c] by (simp add: window_store_def)
qed

subsection \<open>What a call does to the caller's objects\<close>

lemma evolves_enter: "evolves cl s (enter vit s)"
  by (simp add: evolves_def enter_def)

lemma evolves_new_V [simp]: "evolves cl s (fr\<lparr> new_V := x \<rparr>) = evolves cl s fr"
  by (simp add: evolves_def)

lemma evolves_record_path [simp]: "evolves cl s (record_path t f fr) = evolves cl s fr"
  by (simp add: evolves_def record_path_def)

lemma evolvesI:
  assumes "next_free s \<le> free fr"
    and "\<And>f a. map_of (path_obj s) f = Some a \<Longrightarrow> map_of (path fr) f = Some a"
    and "\<And>f. map_of (path_obj s) f = None \<Longrightarrow>
        map_of (path fr) f = None \<or>
        (\<exists>a. map_of (path fr) f = Some a \<and> next_free s \<le> a \<and> a < free fr \<and> heap fr a = [])"
    and "\<And>a. a < next_free s \<Longrightarrow>
        heap fr a = list_objs s a \<or>
        (int (length (list_objs s a)) = cl \<and> list_objs s a \<noteq> [] \<and>
         heap fr a = tl (list_objs s a))"
  shows "evolves cl s fr"
  using assms unfolding evolves_def by blast

lemma evolves_free: "evolves cl s fr \<Longrightarrow> next_free s \<le> free fr"
  by (simp add: evolves_def)

lemma evolves_old_key:
  "evolves cl s fr \<Longrightarrow> map_of (path_obj s) f = Some a \<Longrightarrow> map_of (path fr) f = Some a"
  by (simp add: evolves_def)

lemma evolves_new_key:
  "evolves cl s fr \<Longrightarrow> map_of (path_obj s) f = None \<Longrightarrow>
     map_of (path fr) f = None \<or>
     (\<exists>a. map_of (path fr) f = Some a \<and> next_free s \<le> a \<and> a < free fr \<and> heap fr a = [])"
  by (simp add: evolves_def)

lemma evolves_old_list:
  "evolves cl s fr \<Longrightarrow> a < next_free s \<Longrightarrow>
     heap fr a = list_objs s a \<or>
     (int (length (list_objs s a)) = cl \<and> list_objs s a \<noteq> [] \<and>
      heap fr a = tl (list_objs s a))"
  by (simp add: evolves_def)

lemma evolves_ensure_entry:
  assumes "evolves cl s fr"
  shows "evolves cl s (ensure_entry f fr)"
proof (cases "map_of (path fr) f")
  case (Some a)
  with assms show ?thesis by (simp add: ensure_entry_def)
next
  case None
  define fr' where "fr' = ensure_entry f fr"
  have p: "map_of (path fr') g = (if g = f then Some (free fr) else map_of (path fr) g)" for g
    using None by (simp add: fr'_def ensure_entry_def update_conv')
  have h: "heap fr' a = (if a = free fr then [] else heap fr a)" for a
    using None by (simp add: fr'_def ensure_entry_def)
  have n: "free fr' = Suc (free fr)"
    using None by (simp add: fr'_def ensure_entry_def)
  have f0: "map_of (path_obj s) f = None"
    using evolves_old_key[OF assms, of f] None by (cases "map_of (path_obj s) f") auto
  have "evolves cl s fr'"
  proof (rule evolvesI)
    show "next_free s \<le> free fr'" using evolves_free[OF assms] n by simp
  next
    fix g a assume "map_of (path_obj s) g = Some a"
    with f0 evolves_old_key[OF assms this] show "map_of (path fr') g = Some a"
      by (auto simp: p)
  next
    fix g assume g: "map_of (path_obj s) g = None"
    show "map_of (path fr') g = None \<or>
        (\<exists>a. map_of (path fr') g = Some a \<and> next_free s \<le> a \<and> a < free fr' \<and> heap fr' a = [])"
    proof (cases "g = f")
      case True
      then show ?thesis using evolves_free[OF assms] by (simp add: p h n)
    next
      case False
      from evolves_new_key[OF assms g] show ?thesis
      proof (elim disjE exE conjE)
        assume "map_of (path fr) g = None"
        with False show ?thesis by (simp add: p)
      next
        fix a assume "map_of (path fr) g = Some a" "next_free s \<le> a" "a < free fr" "heap fr a = []"
        with False have "map_of (path fr') g = Some a \<and> next_free s \<le> a \<and> a < free fr' \<and>
            heap fr' a = []"
          by (simp add: p h n)
        then show ?thesis by blast
      qed
    qed
  next
    fix a assume "a < next_free s"
    with evolves_old_list[OF assms this] evolves_free[OF assms]
    show "heap fr' a = list_objs s a \<or>
        (int (length (list_objs s a)) = cl \<and> list_objs s a \<noteq> [] \<and>
         heap fr' a = tl (list_objs s a))"
      by (auto simp: h)
  qed
  then show ?thesis by (simp add: fr'_def)
qed

lemma evolves_pop:
  assumes "evolves cl s fr" and "int (length (heap fr a)) = cl" and "heap fr a \<noteq> []"
  shows "evolves cl s (fr\<lparr> heap := (heap fr)(a := tl (heap fr a)) \<rparr>)"
proof (rule evolvesI)
  show "next_free s \<le> free (fr\<lparr> heap := (heap fr)(a := tl (heap fr a)) \<rparr>)"
    using evolves_free[OF assms(1)] by simp
next
  fix g b assume "map_of (path_obj s) g = Some b"
  then show "map_of (path (fr\<lparr> heap := (heap fr)(a := tl (heap fr a)) \<rparr>)) g = Some b"
    using evolves_old_key[OF assms(1)] by simp
next
  fix g assume "map_of (path_obj s) g = None"
  from evolves_new_key[OF assms(1) this] assms(3)
  show "map_of (path (fr\<lparr> heap := (heap fr)(a := tl (heap fr a)) \<rparr>)) g = None \<or>
        (\<exists>b. map_of (path (fr\<lparr> heap := (heap fr)(a := tl (heap fr a)) \<rparr>)) g = Some b \<and>
             next_free s \<le> b \<and> b < free (fr\<lparr> heap := (heap fr)(a := tl (heap fr a)) \<rparr>) \<and>
             heap (fr\<lparr> heap := (heap fr)(a := tl (heap fr a)) \<rparr>) b = [])"
    by auto
next
  fix b assume b: "b < next_free s"
  show "heap (fr\<lparr> heap := (heap fr)(a := tl (heap fr a)) \<rparr>) b = list_objs s b \<or>
        (int (length (list_objs s b)) = cl \<and> list_objs s b \<noteq> [] \<and>
         heap (fr\<lparr> heap := (heap fr)(a := tl (heap fr a)) \<rparr>) b = tl (list_objs s b))"
  proof (cases "b = a")
    case False
    with evolves_old_list[OF assms(1) b] show ?thesis by simp
  next
    case True
    from evolves_old_list[OF assms(1) b] show ?thesis
    proof
      assume "heap fr b = list_objs s b"
      with True assms(2,3) show ?thesis by simp
    next
      assume t: "int (length (list_objs s b)) = cl \<and> list_objs s b \<noteq> [] \<and>
         heap fr b = tl (list_objs s b)"
      then have "int (length (heap fr b)) \<noteq> cl" by (cases "list_objs s b") auto
      with True assms(2) show ?thesis by simp
    qed
  qed
qed

lemma evolves_extend_from:
  assumes "evolves cl s fr"
  shows "evolves cl s (final (extend_from cl t f fr))"
proof (cases rule: extend_from_cases[of fr f cl t])
  case fails
  with assms show ?thesis by (simp add: evolves_ensure_entry)
next
  case pops
  let ?E = "ensure_entry f fr"
  let ?a = "the (map_of (path ?E) f)"
  have "evolves cl s (?E\<lparr> heap := (heap ?E)(?a := tl (heap ?E ?a)) \<rparr>)"
    using pops(1,2) by (intro evolves_pop evolves_ensure_entry assms) (simp_all add: ensure_entry_slot)
  with pops(3) show ?thesis by (simp add: ensure_entry_slot)
next
  case keeps
  with assms show ?thesis by (simp add: evolves_ensure_entry)
qed

lemma evolves_update_state:
  assumes "evolves (constraint_length vit) s fr"
  shows "evolves (constraint_length vit) s (final (update_state vit se fr))"
proof (cases rule: update_state_cases[of vit se fr])
  case raises
  with assms show ?thesis by simp
next
  case (skips inc)
  with assms show ?thesis by simp
next
  case (extends inc fp fps)
  with assms show ?thesis by (simp add: evolves_extend_from)
qed

lemma evolves_loop:
  "evolves (constraint_length vit) s
     (final (for_loop (update_state vit) xs (enter vit s)))"
  by (rule for_loop_final[where I = "evolves (constraint_length vit) s"])
    (simp_all add: evolves_enter evolves_update_state)

text \<open>
  C3 as stated fails: called with an empty path table, \<^verbatim>\<open>step\<close> adds the key \<open>A\<close> to
  the caller's table; called with the table \<^verbatim>\<open>{'A': ['X', 'A']}\<close> and a window of 2, it
  removes \<open>X\<close> from the caller's list.
\<close>

theorem step_mutates_path_table:
  "path_obj empty_store = [] \<and>
   path_obj (snd (step zero_prior_engine () empty_store)) = [(''A'', 0)] \<and>
   list_objs window_store 0 = [''X'', ''A''] \<and>
   list_objs (snd (step two_state_engine () window_store)) 0 = [''A'']"
  by (simp add: zero_prior_engine_def two_state_engine_def empty_store_def window_store_def
      init_eval step_eval step_snd del: not_None_eq)

text \<open>
  C3, amended: \<^verbatim>\<open>step\<close> never changes the object passed as \<^verbatim>\<open>V\<close> and never removes or
  redirects a key of the path table passed to it; it may add keys to that table, each
  referring to a new list that is empty after the call, and each list the caller held
  before the call is afterwards unchanged or, if it had exactly \<^verbatim>\<open>constraint_length\<close>
  elements, without its first element. This holds for returning and for raising calls.
\<close>

theorem step_frame:
  "dist_obj (snd (step vit obs s)) = dist_obj s \<and>
   (\<forall>f a. map_of (path_obj s) f = Some a \<longrightarrow>
      map_of (path_obj (snd (step vit obs s))) f = Some a) \<and>
   (\<forall>f a. map_of (path_obj s) f = None \<longrightarrow>
      map_of (path_obj (snd (step vit obs s))) f = Some a \<longrightarrow>
      next_free s \<le> a \<and> list_objs (snd (step vit obs s)) a = []) \<and>
   (\<forall>a < next_free s.
      list_objs (snd (step vit obs s)) a = list_objs s a \<or>
      (int (length (list_objs s a)) = constraint_length vit \<and> list_objs s a \<noteq> [] \<and>
       list_objs (snd (step vit obs s)) a = tl (list_objs s a)))"
proof -
  let ?fr = "final (for_loop (update_state vit) (nonzero_eps vit obs) (enter vit s))"
  have ev: "evolves (constraint_length vit) s ?fr" by (rule evolves_loop)
  have d: "dist_obj (snd (step vit obs s)) = dist_obj s"
    by (simp add: step_snd caller_view_def loop_V enter_def split: option.splits)
  have p: "path_obj (snd (step vit obs s)) = path ?fr"
    and h: "list_objs (snd (step vit obs s)) = heap ?fr"
    by (simp_all add: step_snd caller_view_def)
  show ?thesis
    unfolding p h
  proof (intro conjI allI impI)
    show "dist_obj (snd (step vit obs s)) = dist_obj s" by (rule d)
  next
    fix f a assume "map_of (path_obj s) f = Some a"
    then show "map_of (path ?fr) f = Some a" by (rule evolves_old_key[OF ev])
  next
    fix f a assume "map_of (path_obj s) f = None" "map_of (path ?fr) f = Some a"
    with evolves_new_key[OF ev, of f] show "next_free s \<le> a" "heap ?fr a = []" by auto
  next
    fix a assume "a < next_free s"
    then show "heap ?fr a = list_objs s a \<or>
      (int (length (list_objs s a)) = constraint_length vit \<and> list_objs s a \<noteq> [] \<and>
       heap ?fr a = tl (list_objs s a))"
      by (rule evolves_old_list[OF ev])
  qed
qed

theorem step_frame_witness:
  "dist_obj (snd (step two_state_engine () window_store)) = dist_obj window_store \<and>
   map_of (path_obj window_store) ''A'' = Some 0 \<and>
   map_of (path_obj (snd (step two_state_engine () window_store))) ''A'' = Some 0 \<and>
   0 < next_free window_store \<and>
   int (length (list_objs window_store 0)) = constraint_length two_state_engine \<and>
   list_objs (snd (step two_state_engine () window_store)) 0 = tl (list_objs window_store 0) \<and>
   map_of (path_obj empty_store) ''A'' = None \<and>
   map_of (path_obj (snd (step zero_prior_engine () empty_store))) ''A'' = Some 0 \<and>
   list_objs (snd (step zero_prior_engine () empty_store)) 0 = []"
proof -
  have a: "map_of (path_obj window_store) ''A'' = Some 0" "0 < next_free window_store"
    "list_objs window_store 0 = [''X'', ''A'']"
    by (simp_all add: window_store_def)
  have c: "constraint_length two_state_engine = 2" by (simp add: two_state_engine_def init_def)
  have l: "list_objs (snd (step two_state_engine () window_store)) 0 \<noteq> list_objs window_store 0"
    by (simp add: two_state_engine_def window_store_def init_eval step_eval step_snd
        del: not_None_eq)
  have e: "map_of (path_obj empty_store) ''A'' = None" by (simp add: empty_store_def)
  have k: "map_of (path_obj (snd (step zero_prior_engine () empty_store))) ''A'' = Some 0"
    by (simp add: zero_prior_engine_def empty_store_def init_eval step_eval step_snd
        del: not_None_eq)
  show ?thesis
    using a c l e k step_frame[of two_state_engine "()" window_store]
      step_frame[of zero_prior_engine "()" empty_store]
    by auto
qed

subsection \<open>Paths extend the pre-step paths\<close>

lemma slot_rule:
  assumes "evolves cl s fr" "allocated s"
  shows "extend_rule cl (slot fr f) t = extend_rule cl (recorded s f) t"
proof (cases "map_of (path_obj s) f")
  case None
  from evolves_new_key[OF assms(1) None] have "slot fr f = []"
    by (auto simp: slot_def)
  with None show ?thesis by (simp add: recorded_def)
next
  case (Some a)
  then have "(f, a) \<in> set (path_obj s)" by (rule map_of_SomeD)
  with assms(2) have a: "a < next_free s" by (auto simp: allocated_def)
  have sl: "slot fr f = heap fr a"
    using evolves_old_key[OF assms(1) Some] by (simp add: slot_def)
  have re: "recorded s f = list_objs s a" using Some by (simp add: recorded_def)
  from evolves_old_list[OF assms(1) a] show ?thesis
  proof
    assume "heap fr a = list_objs s a"
    then show ?thesis by (simp add: sl re)
  next
    assume t: "int (length (list_objs s a)) = cl \<and> list_objs s a \<noteq> [] \<and>
      heap fr a = tl (list_objs s a)"
    then have "int (length (tl (list_objs s a))) \<noteq> cl" by (cases "list_objs s a") auto
    with t show ?thesis by (simp add: sl re extend_rule_def)
  qed
qed

lemma extend_from_new_path:
  "new_path (final (extend_from cl t f fr)) = new_path fr \<or>
   new_path (final (extend_from cl t f fr))
     = AList.update t (extend_rule cl (slot fr f) t) (new_path fr)"
proof (cases rule: extend_from_cases[of fr f cl t])
  case fails
  then show ?thesis by (simp add: ensure_entry_def)
next
  case pops
  then show ?thesis by (simp add: record_path_def extend_rule_def ensure_entry_def)
next
  case keeps
  then show ?thesis
    by (simp add: record_path_def extend_rule_def ensure_entry_slot) (simp add: ensure_entry_def)
qed

lemma nonzero_eps_snd:
  "se \<in> set (nonzero_eps vit obs) \<Longrightarrow> snd se = emission_probability vit (fst se) obs"
  by (auto simp: nonzero_eps_def)

lemma explained_update_state:
  assumes ev: "evolves (constraint_length vit) s fr" and al: "allocated s"
    and v: "V fr = V (enter vit s)"
    and se: "snd se = emission_probability vit (fst se) obs"
    and ex: "explained vit obs s fr"
  shows "explained vit obs s (final (update_state vit se fr))"
proof (cases rule: update_state_cases[of vit se fr])
  case raises
  with ex show ?thesis by simp
next
  case (skips inc)
  with ex show ?thesis by simp
next
  case (extends inc fp fps)
  let ?f = "snd (max_by_key fp fps)"
  let ?fr1 = "fr\<lparr> new_V := AList.update (fst se) (fst (max_by_key fp fps)) (new_V fr) \<rparr>"
  have am: "arg_max_from vit obs s (fst se) = Some ?f"
    using extends(1,2) by (simp add: arg_max_from_def v[symmetric] se[symmetric])
  have sl: "extend_rule (constraint_length vit) (slot ?fr1 ?f) (fst se)
      = extend_rule (constraint_length vit) (recorded s ?f) (fst se)"
    using al by (intro slot_rule) (simp_all add: ev)
  from extend_from_new_path[of "constraint_length vit" "fst se" ?f ?fr1]
  show ?thesis
  proof
    assume "new_path (final (extend_from (constraint_length vit) (fst se) ?f ?fr1)) = new_path ?fr1"
    with ex show ?thesis by (simp add: extends(3) explained_def)
  next
    assume "new_path (final (extend_from (constraint_length vit) (fst se) ?f ?fr1)) =
      AList.update (fst se) (extend_rule (constraint_length vit) (slot ?fr1 ?f) (fst se))
        (new_path ?fr1)"
    with ex am sl show ?thesis
      by (simp add: extends(3) explained_def update_conv')
  qed
qed

lemma explained_loop:
  assumes "allocated s"
  shows "explained vit obs s
     (final (for_loop (update_state vit) (nonzero_eps vit obs) (enter vit s)))"
proof -
  let ?I = "\<lambda>fr. evolves (constraint_length vit) s fr \<and> V fr = V (enter vit s) \<and>
     explained vit obs s fr"
  have "?I (final (for_loop (update_state vit) (nonzero_eps vit obs) (enter vit s)))"
  proof (rule for_loop_final[where I = ?I])
    show "?I (enter vit s)"
      by (simp add: evolves_enter) (simp add: explained_def enter_def)
  next
    fix x fr assume "x \<in> set (nonzero_eps vit obs)" "?I fr"
    then show "?I (final (update_state vit x fr))"
      using assms
      by (simp add: evolves_update_state update_state_V explained_update_state nonzero_eps_snd)
  qed
  then show ?thesis by simp
qed

lemma prune_paths_map_of:
  "map_of (snd (fold prune ks vp)) t = Some p \<Longrightarrow> map_of (snd vp) t = Some p"
proof (induction ks arbitrary: vp)
  case Nil
  then show ?case by simp
next
  case (Cons k ks)
  then have "map_of (snd (prune k vp)) t = Some p" by simp
  then show ?case by (auto simp: prune_def delete_conv' split: if_splits)
qed

lemma returned_path_explained:
  assumes "allocated s" and "fst (step vit obs s) = Inr (V', P')" and "map_of P' t = Some p"
  shows "\<exists>f. arg_max_from vit obs s t = Some f \<and>
     p = extend_rule (constraint_length vit) (recorded s f) t"
proof -
  from assms(2) obtain fr where
    loop: "for_loop (update_state vit) (nonzero_eps vit obs) (enter vit s) = Inr fr"
    and r: "(V', P') = finish vit fr"
    by (rule step_returns)
  from explained_loop[OF assms(1), of vit obs] loop have ex: "explained vit obs s fr" by simp
  have "P' = snd (finish vit fr)" using r[symmetric] by simp
  with assms(3) have "map_of (new_path fr) t = Some p"
    using prune_paths_map_of[of _ "(_, new_path fr)" t p] by (simp add: finish_def Let_def)
  with ex show ?thesis by (simp add: explained_def)
qed

text \<open>
  C9: when \<^verbatim>\<open>step\<close> returns and the same state \<open>f\<close> is the arg-max predecessor of two
  states \<open>t1\<close> and \<open>t2\<close> of the returned path table, both paths are the
  truncation-and-append rule applied to the list recorded for \<open>f\<close> before the call
  (empty if there was none), whatever the loop did to that list in between.
\<close>

theorem shared_predecessor_paths:
  assumes "allocated s" and "fst (step vit obs s) = Inr (V', P')"
    and "map_of P' t1 = Some p1" and "map_of P' t2 = Some p2"
    and "arg_max_from vit obs s t1 = Some f" and "arg_max_from vit obs s t2 = Some f"
  shows "p1 = extend_rule (constraint_length vit) (recorded s f) t1 \<and>
         p2 = extend_rule (constraint_length vit) (recorded s f) t2"
  using returned_path_explained[OF assms(1,2,3)] returned_path_explained[OF assms(1,2,4)]
    assms(5,6) by auto

theorem shared_predecessor_paths_witness:
  "path_obj window_store = [(''A'', 0)] \<and> next_free window_store = 1 \<and>
   recorded window_store ''A'' = [''X'', ''A''] \<and>
   constraint_length two_state_engine = 2 \<and>
   fst (step two_state_engine () window_store)
     = Inr ([(''A'', 1 / 2), (''B'', 1 / 2)], [(''A'', [''A'', ''A'']), (''B'', [''A'', ''B''])]) \<and>
   arg_max_from two_state_engine () window_store ''A'' = Some ''A'' \<and>
   arg_max_from two_state_engine () window_store ''B'' = Some ''A'' \<and>
   [''A'', ''A''] = extend_rule (constraint_length two_state_engine) (recorded window_store ''A'') ''A'' \<and>
   [''A'', ''B''] = extend_rule (constraint_length two_state_engine) (recorded window_store ''A'') ''B''"
proof -
  have a: "allocated window_store"
    by (simp add: allocated_def window_store_def)
  have b: "fst (step two_state_engine () window_store)
     = Inr ([(''A'', 1 / 2), (''B'', 1 / 2)], [(''A'', [''A'', ''A'']), (''B'', [''A'', ''B''])])"
    by (simp add: two_state_engine_def window_store_def init_eval step_eval del: not_None_eq)
  have c: "map_of [(''A'', [''A'', ''A'']), (''B'', [''A'', ''B''])] ''A'' = Some [''A'', ''A'']"
    by simp
  have d: "map_of [(''A'', [''A'', ''A'']), (''B'', [''A'', ''B''])] ''B'' = Some [''A'', ''B'']"
    by simp
  have e: "arg_max_from two_state_engine () window_store ''A'' = Some ''A''"
    by (simp add: arg_max_from_def two_state_engine_def window_store_def init_eval enter_def
        from_probs_def nonzero_incoming_def by_dist_def by_incoming_def del: not_None_eq)
  have f: "arg_max_from two_state_engine () window_store ''B'' = Some ''A''"
    by (simp add: arg_max_from_def two_state_engine_def window_store_def init_eval enter_def
        from_probs_def nonzero_incoming_def by_dist_def by_incoming_def del: not_None_eq)
  have g: "recorded window_store ''A'' = [''X'', ''A'']"
    by (simp add: recorded_def window_store_def)
  have h: "constraint_length two_state_engine = 2"
    by (simp add: two_state_engine_def init_def)
  show ?thesis
    using b e f g h shared_predecessor_paths[OF a b c d e f]
    by (simp add: window_store_def)
qed

subsection \<open>When a call returns\<close>

lemma for_loop_Inr:
  assumes "\<And>x f. x \<in> set xs \<Longrightarrow> \<exists>f'. body x f = Inr f'"
  shows "\<exists>f'. for_loop body xs fr = Inr f'"
  using assms
proof (induction xs arbitrary: fr)
  case Nil
  show ?case by simp
next
  case (Cons x xs)
  from Cons.prems[of x fr] obtain f' where "body x fr = Inr f'" by auto
  moreover have "\<exists>f''. for_loop body xs f' = Inr f''"
    by (rule Cons.IH) (simp add: Cons.prems)
  ultimately show ?case by simp
qed

lemma for_loop_Inl:
  assumes "for_loop body xs fr = Inl ef"
  shows "\<exists>x \<in> set xs. \<exists>f. body x f = Inl ef"
  using assms
proof (induction xs arbitrary: fr)
  case Nil
  then show ?case by simp
next
  case (Cons x xs)
  show ?case
  proof (cases "body x fr")
    case (Inl e)
    with Cons.prems show ?thesis by auto
  next
    case (Inr f')
    with Cons.prems have "for_loop body xs f' = Inl ef" by simp
    from Cons.IH[OF this] show ?thesis by auto
  qed
qed

lemma extend_from_outcome:
  assumes "cl \<noteq> 0"
  shows "\<exists>fr'. extend_from cl t f fr = Inr fr'"
proof (cases rule: extend_from_cases[of fr f cl t])
  case fails
  with assms show ?thesis by simp
next
  case pops
  then show ?thesis by simp
next
  case keeps
  then show ?thesis by simp
qed

lemma update_state_outcome:
  assumes "constraint_length vit \<noteq> 0"
  shows "update_state vit se fr = Inl (KeyError, fr) \<and> map_of (incoming vit) (fst se) = None \<or>
         (\<exists>fr'. update_state vit se fr = Inr fr') \<and> map_of (incoming vit) (fst se) \<noteq> None"
proof (cases rule: update_state_cases[of vit se fr])
  case raises
  then show ?thesis by simp
next
  case (skips inc)
  then show ?thesis by simp
next
  case (extends inc fp fps)
  then show ?thesis using extend_from_outcome[OF assms] by simp
qed

lemma step_Inl:
  assumes "fst (step vit obs s) = Inl e"
  obtains fr where
    "for_loop (update_state vit) (nonzero_eps vit obs) (enter vit s) = Inl (e, fr)"
  using assms by (auto simp: step_def split: sum.splits prod.splits)

text \<open>
  C8 as stated fails: an engine built with \<^verbatim>\<open>constraint_length = 0\<close> raises
  \<^verbatim>\<open>IndexError\<close> on its first step, at \<^verbatim>\<open>pop(0)\<close> on the empty path of the best
  predecessor.
\<close>

theorem zero_window_raises:
  "constraint_length zero_window_engine = 0 \<and>
   fst (step zero_window_engine () empty_store) = Inl IndexError"
  by (simp add: zero_window_engine_def empty_store_def init_eval step_eval del: not_None_eq)

lemma step_outcome:
  assumes "constraint_length vit \<noteq> 0"
  shows "fst (step vit obs s) \<noteq> Inl IndexError \<and>
    ((\<forall>c \<in> set (candidate_states vit obs).
        0 < emission_probability vit c obs \<longrightarrow> map_of (incoming vit) c \<noteq> None)
     \<longrightarrow> (\<exists>r. fst (step vit obs s) = Inr r))"
proof (intro conjI impI)
  note cl = assms
  show "fst (step vit obs s) \<noteq> Inl IndexError"
  proof
    assume "fst (step vit obs s) = Inl IndexError"
    then obtain fr where
      "for_loop (update_state vit) (nonzero_eps vit obs) (enter vit s) = Inl (IndexError, fr)"
      by (rule step_Inl)
    from for_loop_Inl[OF this] obtain x f where "update_state vit x f = Inl (IndexError, fr)"
      by auto
    with update_state_outcome[OF cl, of x f] show False by auto
  qed
  assume known: "\<forall>c \<in> set (candidate_states vit obs).
        0 < emission_probability vit c obs \<longrightarrow> map_of (incoming vit) c \<noteq> None"
  have "\<exists>fr. for_loop (update_state vit) (nonzero_eps vit obs) (enter vit s) = Inr fr"
  proof (rule for_loop_Inr)
    fix x f assume "x \<in> set (nonzero_eps vit obs)"
    with known have "map_of (incoming vit) (fst x) \<noteq> None"
      by (auto simp: nonzero_eps_def)
    with update_state_outcome[OF cl, of x f] show "\<exists>f'. update_state vit x f = Inr f'"
      by auto
  qed
  then show "\<exists>r. fst (step vit obs s) = Inr r" by (auto simp: step_def)
qed

text \<open>
  C8, amended: construction accepts every \<^verbatim>\<open>constraint_length\<close>; on an engine built with
  a \<^verbatim>\<open>constraint_length\<close> of at least 1 the truncation never fails, that is \<^verbatim>\<open>step\<close>
  never raises \<^verbatim>\<open>IndexError\<close>, and \<^verbatim>\<open>step\<close> returns normally on every input on which
  each candidate state with a positive emission probability has an entry in the reverse
  index.
\<close>

theorem positive_window_returns:
  assumes "1 \<le> cl" and "vit = init h ep pri cl cand sv"
  shows "constraint_length vit = cl \<and>
    fst (step vit obs s) \<noteq> Inl IndexError \<and>
    ((\<forall>c \<in> set (candidate_states vit obs).
        0 < emission_probability vit c obs \<longrightarrow> map_of (incoming vit) c \<noteq> None)
     \<longrightarrow> (\<exists>r. fst (step vit obs s) = Inr r))"
proof -
  have cl: "constraint_length vit = cl" using assms(2) by (simp add: init_def)
  with assms(1) have "constraint_length vit \<noteq> 0" by simp
  from step_outcome[OF this, of obs s] cl show ?thesis by simp
qed

theorem positive_window_returns_witness:
  "constraint_length two_state_engine = 2 \<and>
   candidate_states two_state_engine () = [''A'', ''B''] \<and>
   map_of (incoming two_state_engine) ''A'' = Some [(''A'', 1 / 2)] \<and>
   map_of (incoming two_state_engine) ''B'' = Some [(''A'', 1 / 2), (''B'', 1)] \<and>
   fst (step two_state_engine () window_store) \<noteq> Inl IndexError \<and>
   (\<exists>r. fst (step two_state_engine () window_store) = Inr r)"
proof -
  have a: "(1::int) \<le> 2" by simp
  have b: "candidate_states two_state_engine () = [''A'', ''B'']"
    "map_of (incoming two_state_engine) ''A'' = Some [(''A'', 1 / 2)]"
    "map_of (incoming two_state_engine) ''B'' = Some [(''A'', 1 / 2), (''B'', 1)]"
    by (simp_all add: two_state_engine_def init_eval)
  show ?thesis
    using b positive_window_returns[OF a two_state_engine_def, of "()" window_store] by simp
qed

subsection \<open>The reverse index\<close>

lemma rev_prob_add_edge:
  "rev_prob (add_edge f e inc) t' f' =
     (if t' = fst e \<and> f' = f then Some (snd e) else rev_prob inc t' f')"
  by (auto simp: rev_prob_def add_edge_def Let_def update_conv' split: option.splits)

lemma rev_prob_fold_edges:
  "rev_prob (fold (add_edge f) es inc) t f' =
     (if f' = f then (case map_of (rev es) t of Some p \<Rightarrow> Some p | None \<Rightarrow> rev_prob inc t f)
      else rev_prob inc t f')"
proof (induction es arbitrary: inc)
  case Nil
  show ?case by simp
next
  case (Cons e es)
  show ?case
    by (simp add: Cons rev_prob_add_edge map_of_append map_add_def split: option.splits)
qed

lemma rev_prob_fold_states:
  "rev_prob (fold (\<lambda>g inc. fold (add_edge g) (the (map_of h g)) inc) ks inc0) t f =
     (if f \<in> set ks
      then (case map_of (rev (the (map_of h f))) t of
              Some p \<Rightarrow> Some p | None \<Rightarrow> rev_prob inc0 t f)
      else rev_prob inc0 t f)"
proof (induction ks arbitrary: inc0)
  case Nil
  show ?case by simp
next
  case (Cons k ks)
  show ?case
    by (simp add: Cons rev_prob_fold_edges split: option.splits)
qed

lemma rev_prob_build_incoming: "rev_prob (build_incoming h) t f = last_edge h f t"
proof -
  have "f \<in> set (map fst h) \<longleftrightarrow> map_of h f \<noteq> None"
    by (simp add: map_of_eq_None_iff)
  then show ?thesis
    unfolding build_incoming_def rev_prob_fold_states last_edge_def
    by (auto simp: rev_prob_def split: option.splits)
qed

text \<open>
  C4 as stated fails: the constructor accepts a graph with a transition probability of 5,
  builds the reverse index from it, and a step on the engine returns a result.
\<close>

theorem malformed_graph_accepted:
  "malformed [(''A'', [(''A'', 5)])] \<and>
   hmm malformed_engine = [(''A'', [(''A'', 5)])] \<and>
   incoming malformed_engine = [(''A'', [(''A'', 5)])] \<and>
   fst (step malformed_engine () empty_store) = Inr ([(''A'', 1)], [(''A'', [''A''])])"
  by (simp add: malformed_def malformed_engine_def empty_store_def init_eval step_eval
      del: not_None_eq)

text \<open>
  C4, amended: construction never fails and checks nothing. For every transition graph,
  malformed or not, it returns an engine that holds the graph, the window length and the
  floor as given, and whose reverse index has for \<open>to\<close> and \<open>from\<close> exactly the
  probability of the edge from \<open>from\<close> to \<open>to\<close> in the graph, whatever its value, and no
  entry when the graph has no such edge.
\<close>

theorem construction_checks_nothing:
  "hmm (init h ep pri cl cand sv) = h \<and>
   constraint_length (init h ep pri cl cand sv) = cl \<and>
   smallV (init h ep pri cl cand sv) = sv \<and>
   rev_prob (incoming (init h ep pri cl cand sv)) t f = last_edge h f t"
  by (simp add: init_def rev_prob_build_incoming)

subsection \<open>A step without probability mass\<close>

lemma prune_dist: "fst (fold prune ks vp) = filter (\<lambda>sp. fst sp \<notin> set ks) (fst vp)"
proof (induction ks arbitrary: vp)
  case Nil
  show ?case by simp
next
  case (Cons k ks)
  have "fst (prune k vp) = filter (\<lambda>sp. fst sp \<noteq> k) (fst vp)"
    by (simp add: prune_def AList.delete_eq case_prod_unfold) (metis)
  then show ?case by (simp add: Cons conj_commute)
qed

lemma small_keys:
  assumes "is_dict d" "sp \<in> set d"
  shows "fst sp \<notin> set (filter (\<lambda>x. the (map_of d x) < c) (map fst d)) \<longleftrightarrow> \<not> snd sp < c"
proof -
  have "map_of d (fst sp) = Some (snd sp)"
    using assms by (simp add: is_dict_def)
  with assms(2) show ?thesis by auto
qed

lemma finish_dist:
  assumes "is_dict (normalizeV vit (new_V fr))"
  shows "fst (finish vit fr)
     = filter (\<lambda>sp. \<not> snd sp < smallV vit) (normalizeV vit (new_V fr))"
proof -
  have "filter (\<lambda>sp. fst sp \<notin> set (filter (\<lambda>x. the (map_of (normalizeV vit (new_V fr)) x) < smallV vit)
            (map fst (normalizeV vit (new_V fr))))) (normalizeV vit (new_V fr))
      = filter (\<lambda>sp. \<not> snd sp < smallV vit) (normalizeV vit (new_V fr))"
    by (rule filter_cong[OF refl]) (rule small_keys[OF assms])
  then show ?thesis by (simp add: finish_def Let_def prune_dist)
qed

lemma finish_no_mass:
  assumes "is_dict (priors vit)" "sum_list (map snd (new_V fr)) = 0"
  shows "fst (finish vit fr) = filter (\<lambda>sp. \<not> snd sp < smallV vit) (priors vit)"
proof -
  have "normalizeV vit (new_V fr) = priors vit" using assms(2) by (simp add: normalizeV_def)
  with finish_dist[of vit fr] assms(1) show ?thesis by simp
qed

lemma no_candidates_loop:
  assumes "candidate_states vit obs = [] \<or>
     (\<forall>c \<in> set (candidate_states vit obs). emission_probability vit c obs \<le> 0)"
  shows "scores vit obs s = Some []"
proof -
  have "nonzero_eps vit obs = []"
    using assms by (auto simp: nonzero_eps_def filter_empty_conv not_less)
  then show ?thesis by (simp add: scores_def enter_def)
qed

text \<open>
  C6 as stated fails: with every emission 0 the normalizer returns the priors
  \<^verbatim>\<open>{'A': 1.0, 'B': 0.0}\<close>, but the pruning that follows deletes \<open>B\<close>, and \<^verbatim>\<open>step\<close>
  returns \<^verbatim>\<open>{'A': 1.0}\<close>.
\<close>

theorem silent_step_prunes_priors:
  "priors silent_engine = [(''A'', 1), (''B'', 0)] \<and>
   nonzero_eps silent_engine () = [] \<and>
   normalizeV silent_engine [] = [(''A'', 1), (''B'', 0)] \<and>
   fst (step silent_engine () empty_store) = Inr ([(''A'', 1)], [])"
  by (simp add: silent_engine_def empty_store_def init_eval step_eval del: not_None_eq)

text \<open>
  C6, amended: when the candidate set is empty, or no candidate has a positive emission
  probability, or the loop ends with scores that sum to 0, the normalizer returns the
  priors, and \<^verbatim>\<open>step\<close> returns normally with the priors without the states whose prior
  is below the floor \<^verbatim>\<open>smallV\<close>; that is the priors themselves when no prior is below
  the floor.
\<close>

theorem no_mass_returns_pruned_priors:
  assumes "is_dict (priors vit)"
    and "candidate_states vit obs = [] \<or>
         (\<forall>c \<in> set (candidate_states vit obs). emission_probability vit c obs \<le> 0) \<or>
         (\<exists>nv. scores vit obs s = Some nv \<and> sum_list (map snd nv) = 0)"
  shows "(\<exists>nv. scores vit obs s = Some nv \<and> normalizeV vit nv = priors vit) \<and>
         (\<exists>P. fst (step vit obs s)
            = Inr (filter (\<lambda>sp. \<not> snd sp < smallV vit) (priors vit), P)) \<and>
         ((\<forall>sp \<in> set (priors vit). \<not> snd sp < smallV vit) \<longrightarrow>
            (\<exists>P. fst (step vit obs s) = Inr (priors vit, P)))"
proof -
  from assms(2) obtain nv where nv: "scores vit obs s = Some nv" "sum_list (map snd nv) = 0"
    using no_candidates_loop[of vit obs s] by fastforce
  then obtain fr where
    loop: "for_loop (update_state vit) (nonzero_eps vit obs) (enter vit s) = Inr fr"
    and fr: "new_V fr = nv"
    by (auto simp: scores_def split: sum.splits)
  have 1: "normalizeV vit nv = priors vit" using nv(2) by (simp add: normalizeV_def)
  have 2: "fst (step vit obs s)
      = Inr (filter (\<lambda>sp. \<not> snd sp < smallV vit) (priors vit), snd (finish vit fr))"
    using finish_no_mass[OF assms(1), of fr] nv(2) fr loop
    by (simp add: step_def prod_eq_iff)
  have 3: "(\<forall>sp \<in> set (priors vit). \<not> snd sp < smallV vit) \<Longrightarrow>
      filter (\<lambda>sp. \<not> snd sp < smallV vit) (priors vit) = priors vit"
    by (simp add: filter_id_conv)
  from nv(1) 1 2 3 show ?thesis by auto
qed

theorem no_mass_returns_pruned_priors_witness:
  "priors zero_prior_engine = [(''A'', 0), (''C'', 1)] \<and>
   scores zero_prior_engine () empty_store = Some [(''B'', 0)] \<and>
   normalizeV zero_prior_engine [(''B'', 0)] = priors zero_prior_engine \<and>
   (\<exists>P. fst (step zero_prior_engine () empty_store) = Inr ([(''C'', 1)], P)) \<and>
   priors mute_engine = [(''A'', 1)] \<and>
   candidate_states mute_engine () = [''A''] \<and>
   emission_probability mute_engine ''A'' () = 0 \<and>
   (\<exists>P. fst (step mute_engine () empty_store) = Inr (priors mute_engine, P))"
proof -
  have a: "is_dict (priors zero_prior_engine)"
    and p: "priors zero_prior_engine = [(''A'', 0), (''C'', 1)]"
    and sm: "smallV zero_prior_engine = 1 / 10 ^ 11"
    by (simp_all add: is_dict_def zero_prior_engine_def init_def)
  have b: "scores zero_prior_engine () empty_store = Some [(''B'', 0)]"
    by (simp add: scores_def zero_prior_engine_def empty_store_def init_eval step_eval
        del: not_None_eq)
  have c: "is_dict (priors mute_engine)"
    and q: "priors mute_engine = [(''A'', 1)]" "candidate_states mute_engine () = [''A'']"
      "emission_probability mute_engine ''A'' () = 0" "smallV mute_engine = 1 / 10 ^ 11"
    by (simp_all add: is_dict_def mute_engine_def init_eval)
  have d: "\<forall>c \<in> set (candidate_states mute_engine ()). emission_probability mute_engine c () \<le> 0"
    by (simp add: q)
  from no_mass_returns_pruned_priors[OF a, of "()" empty_store] b
  have 1: "normalizeV zero_prior_engine [(''B'', 0)] = priors zero_prior_engine"
    and 2: "\<exists>P. fst (step zero_prior_engine () empty_store) = Inr ([(''C'', 1)], P)"
    by (simp_all add: p sm)
  from no_mass_returns_pruned_priors[OF c, of "()" empty_store] d
  have 3: "\<exists>P. fst (step mute_engine () empty_store) = Inr (priors mute_engine, P)"
    by (simp add: q)
  from p b 1 2 q 3 show ?thesis by simp
qed

subsection \<open>Path keys when the normalizer does not reset\<close>

lemma extend_from_new_V: "new_V (final (extend_from cl t f fr)) = new_V fr"
  by (cases rule: extend_from_cases[of fr f cl t])
    (simp_all add: ensure_entry_def record_path_def)

lemma keys_covered_update_state:
  assumes "keys_covered fr"
  shows "keys_covered (final (update_state vit se fr))"
proof (cases rule: update_state_cases[of vit se fr])
  case raises
  with assms show ?thesis by simp
next
  case (skips inc)
  with assms show ?thesis by simp
next
  case (extends inc fp fps)
  let ?fr1 = "fr\<lparr> new_V := AList.update (fst se) (fst (max_by_key fp fps)) (new_V fr) \<rparr>"
  let ?r = "final (extend_from (constraint_length vit) (fst se) (snd (max_by_key fp fps)) ?fr1)"
  have v: "fst ` set (new_V ?r) = insert (fst se) (fst ` set (new_V fr))"
    by (simp add: extend_from_new_V dom_update)
  have np: "fst ` set (new_path ?r) \<subseteq> insert (fst se) (fst ` set (new_path fr))"
    using extend_from_new_path[of "constraint_length vit" "fst se" "snd (max_by_key fp fps)" ?fr1]
  proof
    assume "new_path ?r = new_path ?fr1"
    then show ?thesis by auto
  next
    assume "new_path ?r = AList.update (fst se)
      (extend_rule (constraint_length vit) (slot ?fr1 (snd (max_by_key fp fps))) (fst se))
      (new_path ?fr1)"
    then have "fst ` set (new_path ?r) = {fst se} \<union> fst ` set (new_path ?fr1)"
      by (simp only: dom_update)
    then show ?thesis by simp
  qed
  have "insert (fst se) (fst ` set (new_path fr)) \<subseteq> insert (fst se) (fst ` set (new_V fr))"
    using assms unfolding keys_covered_def by (rule insert_mono)
  with np have "fst ` set (new_path ?r) \<subseteq> insert (fst se) (fst ` set (new_V fr))"
    by (rule order_trans)
  then have "keys_covered ?r" by (simp only: keys_covered_def v)
  then show ?thesis by (simp only: extends(3))
qed

lemma keys_covered_loop:
  fixes vit :: "('s, 'o) viterbi"
  shows "keys_covered (final (for_loop (update_state vit) xs (enter vit s)))"
proof (rule for_loop_final[where I = keys_covered])
  show "keys_covered (enter vit s)" by (simp add: keys_covered_def enter_def)
next
  fix x and f :: "'s frame" assume "keys_covered f"
  then show "keys_covered (final (update_state vit x f))" by (rule keys_covered_update_state)
qed

lemma keys_delete: "fst ` set (AList.delete k al) = fst ` set al - {k}"
  by (auto simp: AList.delete_eq)

lemma prune_keys:
  assumes "fst ` set (snd vp) \<subseteq> fst ` set (fst vp)"
  shows "fst ` set (snd (fold prune ks vp)) \<subseteq> fst ` set (fst (fold prune ks vp))"
  using assms
proof (induction ks arbitrary: vp)
  case Nil
  then show ?case by simp
next
  case (Cons k ks)
  have "fst ` set (snd (prune k vp)) \<subseteq> fst ` set (fst (prune k vp))"
    using Cons.prems by (auto simp: prune_def keys_delete map_of_eq_None_iff)
  from Cons.IH[OF this] show ?case by simp
qed

lemma normalizeV_keys:
  "sum_list (map snd Vd) \<noteq> 0 \<Longrightarrow> map fst (normalizeV vit Vd) = map fst Vd"
  by (simp add: normalizeV_def comp_def)

text \<open>
  Unless the scores sum to 0, every key of the returned path table is a key of the
  returned distribution.
\<close>

lemma path_keys_covered_without_reset:
  assumes "fst (step vit obs s) = Inr (V', P')"
    and "scores vit obs s = Some nv" and "sum_list (map snd nv) \<noteq> 0"
  shows "fst ` set P' \<subseteq> fst ` set V'"
proof -
  from assms(1) obtain fr where
    loop: "for_loop (update_state vit) (nonzero_eps vit obs) (enter vit s) = Inr fr"
    and r: "(V', P') = finish vit fr"
    by (rule step_returns)
  from loop assms(2) have nv: "new_V fr = nv" by (simp add: scores_def)
  from keys_covered_loop[of vit "nonzero_eps vit obs" s] loop have "keys_covered fr" by simp
  then have "fst ` set (new_path fr) \<subseteq> fst ` set (normalizeV vit (new_V fr))"
    using normalizeV_keys[of "new_V fr" vit] assms(3) nv
    by (simp add: keys_covered_def flip: set_map)
  then have "fst ` set (snd (finish vit fr)) \<subseteq> fst ` set (fst (finish vit fr))"
    unfolding finish_def Let_def by (intro prune_keys) simp
  with r[symmetric] show ?thesis by simp
qed

end
